theory Spec2Isabelle
  imports Main "HOL-Library.Word" "HOL-Library.Char_ord" "HOL-Library.List_Lexorder"
begin

section \<open>Data model\<close>

text \<open>
  A ParamSet is Go's \<^verbatim>\<open>map[string]string\<close>: a finite map from field names to values.
\<close>

type_synonym ParamSet = "string \<rightharpoonup> string"

text \<open>
  What \<^verbatim>\<open>json.Unmarshal\<close> stores in an \<^verbatim>\<open>interface{}\<close>: nil, bool, float64 (its 64
  bits, never inspected here), string, \<^verbatim>\<open>[]interface{}\<close> and \<^verbatim>\<open>map[string]interface{}\<close>.
  A Go map is given as the list of its entries in the order in which \<^verbatim>\<open>range\<close> visits
  them. That order is not fixed by the language, so every property below is stated for
  an arbitrary order; the keys of a Go map are pairwise distinct (\<open>wf_object\<close>).
\<close>

datatype json =
    JNull
  | JBool bool
  | JNumber "64 word"
  | JString string
  | JArray "json list"
  | JObject "(string \<times> json) list"

type_synonym object = "(string \<times> json) list"

datatype error =
    EmptyAppSetGeneratorError
  | UnmarshalError string
  | ParsingValuesMapError
  | ParsingValueAsStringError
  | LessThanTwoGeneratorsInMerge
  | NoMergeKeys
  | NonUniqueParamSets string

text \<open>
  The declarations of package \<^verbatim>\<open>api/v1alpha1\<close>, as \<^verbatim>\<open>list.go\<close> and the tests use them:
  a generator node has one pointer per kind, each possibly nil. \<open>'raw\<close> is
  \<^verbatim>\<open>apiextensionsv1.JSON\<close> (the undecoded bytes of one element), \<open>'t\<close> the template and
  \<open>'g\<close> the type of the generators nested in a merge.
\<close>

record ('raw, 't) ListGenerator =
  Elements :: "'raw list"
  Template :: 't

record ('g, 't) MergeGenerator =
  Generators :: "'g list"
  MergeKeys :: "string list"
  MergeTemplate :: 't

record ('raw, 'g, 't) ApplicationSetGenerator =
  List :: "('raw, 't) ListGenerator option"
  Merge :: "('g, 't) MergeGenerator option"

text \<open>
  \<^verbatim>\<open>json.Unmarshal(tmpItem.Raw, &element)\<close> belongs to Go's library, not to this
  repository: it is a parameter, returning the decoded object or the text of the
  decoding error.
\<close>

type_synonym 'raw unmarshal = "'raw \<Rightarrow> string + object"

section \<open>The List generator (pkg/generators/list.go)\<close>

text \<open>\<^verbatim>\<open>GetTemplate\<close>: both dereferences panic on nil; the panic is \<open>None\<close>.\<close>

definition GetTemplate :: "('raw, 'g, 't) ApplicationSetGenerator option \<Rightarrow> 't option" where
  "GetTemplate appSetGenerator =
     (case appSetGenerator of
        None \<Rightarrow> None
      | Some g \<Rightarrow> (case List g of None \<Rightarrow> None | Some l \<Rightarrow> Some (Template l)))"

text \<open>The inner loop, lines 54-60: \<^verbatim>\<open>for k, v := range values\<close>.\<close>

fun values_loop :: "object \<Rightarrow> ParamSet \<Rightarrow> error + ParamSet" where
  "values_loop [] params = Inr params"
| "values_loop ((k, v) # rest) params =
     (case v of
        JString value \<Rightarrow> values_loop rest (params(''values.'' @ k \<mapsto> value))
      | _ \<Rightarrow> Inl ParsingValueAsStringError)"

text \<open>The loop over the fields of one element, lines 48-68.\<close>

fun element_loop :: "object \<Rightarrow> ParamSet \<Rightarrow> error + ParamSet" where
  "element_loop [] params = Inr params"
| "element_loop ((key, value) # rest) params =
     (if key = ''values'' then
        (case value of
           JObject vals \<Rightarrow>
             (case values_loop vals params of
                Inl e \<Rightarrow> Inl e
              | Inr params' \<Rightarrow> element_loop rest params')
         | _ \<Rightarrow> Inl ParsingValuesMapError)
      else
        (case value of
           JString v \<Rightarrow> element_loop rest (params(key \<mapsto> v))
         | _ \<Rightarrow> Inl ParsingValueAsStringError))"

text \<open>The body of the outer loop for one element, lines 41-68.\<close>

definition element_params :: "'raw unmarshal \<Rightarrow> 'raw \<Rightarrow> error + ParamSet" where
  "element_params unmarshal tmpItem =
     (case unmarshal tmpItem of
        Inl err \<Rightarrow> Inl (UnmarshalError err)
      | Inr element \<Rightarrow> element_loop element Map.empty)"

text \<open>
  The outer loop, lines 40-71: \<open>i\<close> is the index of the next element and \<open>res\<close> the
  slice allocated at line 38, written at \<open>i\<close>.
\<close>

fun elements_loop ::
  "'raw unmarshal \<Rightarrow> 'raw list \<Rightarrow> nat \<Rightarrow> ParamSet list \<Rightarrow> error + ParamSet list" where
  "elements_loop unmarshal [] i res = Inr res"
| "elements_loop unmarshal (tmpItem # rest) i res =
     (case element_params unmarshal tmpItem of
        Inl e \<Rightarrow> Inl e
      | Inr params \<Rightarrow> elements_loop unmarshal rest (Suc i) (res[i := params]))"

definition GenerateParams ::
  "'raw unmarshal \<Rightarrow> ('raw, 'g, 't) ApplicationSetGenerator option \<Rightarrow> error + ParamSet list" where
  "GenerateParams unmarshal appSetGenerator =
     (case appSetGenerator of
        None \<Rightarrow> Inl EmptyAppSetGeneratorError
      | Some g \<Rightarrow>
          (case List g of
             None \<Rightarrow> Inl EmptyAppSetGeneratorError
           | Some l \<Rightarrow>
               elements_loop unmarshal (Elements l) 0
                 (replicate (length (Elements l)) Map.empty)))"

text \<open>
  The flattening rule in the words of the specification (section 4.2), used to state
  what the loops compute: the entries one field gives rise to, whether a field is
  acceptable, and whether an error is one of the two value-parsing errors.
\<close>

fun is_string :: "json \<Rightarrow> bool" where
  "is_string (JString s) = True"
| "is_string _ = False"

fun values_entries :: "object \<Rightarrow> (string \<times> string) list" where
  "values_entries [] = []"
| "values_entries ((k, v) # rest) =
     (case v of JString s \<Rightarrow> [(''values.'' @ k, s)] | _ \<Rightarrow> []) @ values_entries rest"

fun flatten_field :: "string \<times> json \<Rightarrow> (string \<times> string) list" where
  "flatten_field (key, value) =
     (if key = ''values'' then (case value of JObject vals \<Rightarrow> values_entries vals | _ \<Rightarrow> [])
      else (case value of JString s \<Rightarrow> [(key, s)] | _ \<Rightarrow> []))"

definition flatten_spec :: "object \<Rightarrow> (string \<times> string) list" where
  "flatten_spec element = concat (map flatten_field element)"

fun field_ok :: "string \<times> json \<Rightarrow> bool" where
  "field_ok (key, value) =
     (if key = ''values'' then
        (case value of JObject vals \<Rightarrow> list_all (\<lambda>kv. is_string (snd kv)) vals | _ \<Rightarrow> False)
      else is_string value)"

definition element_ok :: "object \<Rightarrow> bool" where
  "element_ok element = list_all field_ok element"

definition is_value_parsing_error :: "error \<Rightarrow> bool" where
  "is_value_parsing_error e = (e = ParsingValuesMapError \<or> e = ParsingValueAsStringError)"

text \<open>The keys of a decoded Go map, and of a nested \<open>values\<close> map, are distinct.\<close>

fun wf_field :: "string \<times> json \<Rightarrow> bool" where
  "wf_field (key, JObject vals) = distinct (map fst vals)"
| "wf_field (key, _) = True"

definition wf_object :: "object \<Rightarrow> bool" where
  "wf_object element = (distinct (map fst element) \<and> list_all wf_field element)"

section \<open>The canonicalizer and the Merge generator\<close>

text \<open>
  Modelled from the spec: \<^verbatim>\<open>merge.go\<close>, which holds \<^verbatim>\<open>getParamSetsByMergeKey\<close> and the
  Merge generator's \<^verbatim>\<open>GenerateParams\<close>, is not among the sources; only its tests are.
  The definitions of this section follow sections 4.5, 4.6, 6 and 7 of the
  specification.
\<close>

text \<open>
  Modelled from the spec: "deduplicate mergeKeys preserving first occurrence"
  (section 4.6). \<open>seen\<close> holds the names already kept.
\<close>

fun dedup_from :: "string list \<Rightarrow> string list \<Rightarrow> string list" where
  "dedup_from seen [] = []"
| "dedup_from seen (k # ks) =
     (if k \<in> set seen then dedup_from seen ks else k # dedup_from (k # seen) ks)"

definition dedup :: "string list \<Rightarrow> string list" where
  "dedup ks = dedup_from [] ks"

text \<open>
  Modelled from the spec: "serialize it to a canonical string form (stable key
  ordering, no whitespace ambiguity)" (section 4.6), in the form the tests of
  \<^verbatim>\<open>getParamSetsByMergeKey\<close> expect, a JSON object of strings without spaces. A double
  quote and a backslash inside a string are preceded by a backslash.
\<close>

definition json_quote :: "string \<Rightarrow> string" where
  "json_quote s =
     CHR 0x22 # concat (map (\<lambda>c. if c = CHR 0x22 \<or> c = CHR 0x5C then [CHR 0x5C, c] else [c]) s)
       @ [CHR 0x22]"

fun marshal_fields :: "(string \<times> string) list \<Rightarrow> string" where
  "marshal_fields [] = []"
| "marshal_fields [(k, v)] = json_quote k @ '':'' @ json_quote v"
| "marshal_fields ((k, v) # rest) = json_quote k @ '':'' @ json_quote v @ '','' @ marshal_fields rest"

definition marshal :: "(string \<times> string) list \<Rightarrow> string" where
  "marshal entries = ''{'' @ marshal_fields entries @ ''}''"

text \<open>
  Modelled from the spec: \<open>signature(mergeKeys, paramSet)\<close> of section 4.6:
  deduplicate, sort the key names, build the object of those keys with a missing key
  defaulted to the empty string, serialize.
\<close>

definition signature :: "string list \<Rightarrow> ParamSet \<Rightarrow> string" where
  "signature mergeKeys paramSet =
     marshal (map (\<lambda>k. (k, case paramSet k of None \<Rightarrow> [] | Some v \<Rightarrow> v)) (sort (dedup mergeKeys)))"

text \<open>
  Modelled from the spec: \<open>index(mergeKeys, paramSets)\<close> of section 4.6, the test's
  \<^verbatim>\<open>getParamSetsByMergeKey\<close>: the map is built scanning the rows in input order and the
  first signature already present in it is reported.
\<close>

fun index_loop ::
  "string list \<Rightarrow> ParamSet list \<Rightarrow> (string \<rightharpoonup> ParamSet) \<Rightarrow> error + (string \<rightharpoonup> ParamSet)" where
  "index_loop mergeKeys [] paramSetsByMergeKey = Inr paramSetsByMergeKey"
| "index_loop mergeKeys (paramSet # rest) paramSetsByMergeKey =
     (let s = signature mergeKeys paramSet in
      if paramSetsByMergeKey s \<noteq> None then Inl (NonUniqueParamSets s)
      else index_loop mergeKeys rest (paramSetsByMergeKey(s \<mapsto> paramSet)))"

definition getParamSetsByMergeKey ::
  "string list \<Rightarrow> ParamSet list \<Rightarrow> error + (string \<rightharpoonup> ParamSet)" where
  "getParamSetsByMergeKey mergeKeys paramSets =
     (if mergeKeys = [] then Inl NoMergeKeys else index_loop mergeKeys paramSets Map.empty)"

text \<open>
  Modelled from the spec: step 3 of section 4.5 for one overlay row. The base rows
  carry the signature computed for them in step 2; a base row with the overlay row's
  signature receives the overlay's fields (\<open>++\<close>: the right map wins), every other
  base row is kept, and no row is added.
\<close>

definition merge_row ::
  "string list \<Rightarrow> (string \<times> ParamSet) list \<Rightarrow> ParamSet \<Rightarrow> (string \<times> ParamSet) list" where
  "merge_row mergeKeys base overlayRow =
     map (\<lambda>(s, b). if s = signature mergeKeys overlayRow then (s, b ++ overlayRow) else (s, b)) base"

text \<open>
  Modelled from the spec: step 3 of section 4.5 for the overlay generators, in list
  order; each is evaluated through \<open>getParams\<close> (the dispatch registry), its error
  propagates unchanged, and its rows are applied in order to the rows enriched so far.
\<close>

fun apply_overlays ::
  "('g \<Rightarrow> error + ParamSet list) \<Rightarrow> string list \<Rightarrow> 'g list \<Rightarrow> (string \<times> ParamSet) list
     \<Rightarrow> error + (string \<times> ParamSet) list" where
  "apply_overlays getParams mergeKeys [] base = Inr base"
| "apply_overlays getParams mergeKeys (g # gs) base =
     (case getParams g of
        Inl e \<Rightarrow> Inl e
      | Inr overlayRows \<Rightarrow>
          apply_overlays getParams mergeKeys gs (foldl (merge_row mergeKeys) base overlayRows))"

text \<open>
  Modelled from the spec: the Merge generator's \<open>generateParams\<close> (sections 4.1, 4.5
  and 7). The input-shape errors come first, in the order absent spec, fewer than two
  generators, no merge key; then the base generator is evaluated and indexed, then the
  overlays are applied. The output is the base rows in their order.
\<close>

definition MergeGenerateParams ::
  "('g \<Rightarrow> error + ParamSet list) \<Rightarrow> ('raw, 'g, 't) ApplicationSetGenerator option
     \<Rightarrow> error + ParamSet list" where
  "MergeGenerateParams getParams appSetGenerator =
     (case appSetGenerator of
        None \<Rightarrow> Inl EmptyAppSetGeneratorError
      | Some g \<Rightarrow>
          (case Merge g of
             None \<Rightarrow> Inl EmptyAppSetGeneratorError
           | Some m \<Rightarrow>
               if length (Generators m) < 2 then Inl LessThanTwoGeneratorsInMerge
               else if dedup (MergeKeys m) = [] then Inl NoMergeKeys
               else
                 (case getParams (hd (Generators m)) of
                    Inl e \<Rightarrow> Inl e
                  | Inr baseRows \<Rightarrow>
                      (case getParamSetsByMergeKey (MergeKeys m) baseRows of
                         Inl e \<Rightarrow> Inl e
                       | Inr baseParamSetsByMergeKey \<Rightarrow>
                           (case apply_overlays getParams (MergeKeys m) (tl (Generators m))
                                   (map (\<lambda>b. (signature (MergeKeys m) b, b)) baseRows) of
                              Inl e \<Rightarrow> Inl e
                            | Inr rows \<Rightarrow> Inr (map snd rows))))))"

text \<open>
  Modelled from the spec: the declarations of the error values
  (\<^verbatim>\<open>EmptyAppSetGeneratorError\<close> and the three errors of the merge) are not among the
  sources; their texts are the literal strings of section 6. The three other texts
  are those of the \<^verbatim>\<open>fmt.Errorf\<close> calls of \<^verbatim>\<open>list.go\<close> (there \<^verbatim>\<open>%v\<close> of the nil
  error prints \<^verbatim>\<open><nil>\<close>).
\<close>

fun error_string :: "error \<Rightarrow> string" where
  "error_string EmptyAppSetGeneratorError = ''generator spec is empty''"
| "error_string (UnmarshalError err) = ''error unmarshling list element '' @ err"
| "error_string ParsingValuesMapError = ''error parsing values map''"
| "error_string ParsingValueAsStringError = ''error parsing value as string <nil>''"
| "error_string LessThanTwoGeneratorsInMerge = ''there should be at least two generators in merge''"
| "error_string NoMergeKeys = ''no merge keys were specified''"
| "error_string (NonUniqueParamSets s) = ''param sets are not unique. Duplicate key was '' @ s"

text \<open>
  \<^verbatim>\<open>getNestedListGenerator\<close> of the tests: a nested generator holding a List generator of
  one element. The element is given decoded, so that the identity decoder \<open>Inr\<close> stands
  for \<^verbatim>\<open>json.Unmarshal\<close> wherever this helper is used.
\<close>

definition getNestedListGenerator ::
  "object \<Rightarrow> (object, unit, unit) ApplicationSetGenerator option" where
  "getNestedListGenerator element =
     Some \<lparr>List = Some \<lparr>Elements = [element], Template = ()\<rparr>, Merge = None\<rparr>"

section \<open>The loops of the List generator\<close>

text \<open>
  Writing one more entry into a map that is then overlaid is the same as overlaying
  the list of entries extended at its end.
\<close>

lemma map_add_single:
  "m ++ map_of (xs @ [(k, v)]) = m(k \<mapsto> v) ++ map_of xs"
  by (rule ext) (simp add: map_add_def split: option.splits)

text \<open>
  The inner loop succeeds exactly when every sub-value is a string, and then has
  written the entries of the \<open>values\<close> object, later ones over earlier ones.
\<close>

lemma values_loop_ok:
  "list_all (\<lambda>kv. is_string (snd kv)) vals \<Longrightarrow>
   values_loop vals params = Inr (params ++ map_of (rev (values_entries vals)))"
proof (induction vals arbitrary: params)
  case Nil
  then show ?case by simp
next
  case (Cons kv vals)
  obtain k v where kv: "kv = (k, v)" by (cases kv)
  from Cons.prems kv obtain s where v: "v = JString s" by (cases v) auto
  from Cons.prems have "list_all (\<lambda>kv. is_string (snd kv)) vals" by simp
  then have "values_loop vals (params(''values.'' @ k \<mapsto> s))
      = Inr (params(''values.'' @ k \<mapsto> s) ++ map_of (rev (values_entries vals)))"
    by (rule Cons.IH)
  then show ?case by (simp add: kv v)
qed

lemma values_loop_bad:
  "\<not> list_all (\<lambda>kv. is_string (snd kv)) vals \<Longrightarrow>
   values_loop vals params = Inl ParsingValueAsStringError"
proof (induction vals arbitrary: params)
  case Nil
  then show ?case by simp
next
  case (Cons kv vals)
  obtain k v where kv: "kv = (k, v)" by (cases kv)
  show ?case
  proof (cases v)
    case (JString s)
    with Cons.prems kv have "\<not> list_all (\<lambda>kv. is_string (snd kv)) vals" by simp
    then show ?thesis using Cons.IH kv JString by simp
  qed (simp_all add: kv)
qed

text \<open>The same for the loop over the fields of an element.\<close>

lemma element_loop_ok:
  "element_ok element \<Longrightarrow>
   element_loop element params = Inr (params ++ map_of (rev (flatten_spec element)))"
proof (induction element arbitrary: params)
  case Nil
  then show ?case by (simp add: flatten_spec_def)
next
  case (Cons kv element)
  obtain key j where kv: "kv = (key, j)" by (cases kv)
  from Cons.prems have ok: "field_ok (key, j)" and rest: "element_ok element"
    by (simp_all add: element_ok_def kv)
  note IH = Cons.IH [OF rest]
  show ?case
  proof (cases "key = ''values''")
    case True
    with ok obtain vals where vals: "j = JObject vals"
      and strs: "list_all (\<lambda>kv. is_string (snd kv)) vals"
      by (cases j) auto
    show ?thesis
      by (simp add: kv True vals values_loop_ok [OF strs] IH flatten_spec_def)
  next
    case False
    with ok obtain s where s: "j = JString s" by (cases j) auto
    have fs: "flatten_spec (kv # element) = (key, s) # flatten_spec element"
      by (simp add: flatten_spec_def kv False s)
    have "element_loop (kv # element) params = element_loop element (params(key \<mapsto> s))"
      by (simp add: kv False s)
    also have "\<dots> = Inr (params(key \<mapsto> s) ++ map_of (rev (flatten_spec element)))"
      by (rule IH)
    also have "params(key \<mapsto> s) ++ map_of (rev (flatten_spec element))
        = params ++ map_of (rev (flatten_spec (kv # element)))"
      by (simp only: fs rev.simps map_add_single)
    finally show ?thesis .
  qed
qed

lemma element_loop_bad:
  "\<not> element_ok element \<Longrightarrow>
   \<exists>e. element_loop element params = Inl e \<and> is_value_parsing_error e"
proof (induction element arbitrary: params)
  case Nil
  then show ?case by (simp add: element_ok_def)
next
  case (Cons kv element)
  obtain key j where kv: "kv = (key, j)" by (cases kv)
  show ?case
  proof (cases "field_ok (key, j)")
    case True
    with Cons.prems kv have "\<not> element_ok element" by (simp add: element_ok_def)
    note IH = Cons.IH [OF this]
    show ?thesis
    proof (cases "key = ''values''")
      case k: True
      with True obtain vals where vals: "j = JObject vals"
        and strs: "list_all (\<lambda>kv. is_string (snd kv)) vals"
        by (cases j) auto
      show ?thesis using IH
        by (simp add: kv k vals values_loop_ok [OF strs])
    next
      case k: False
      with True obtain s where s: "j = JString s" by (cases j) auto
      show ?thesis using IH by (simp add: kv k s)
    qed
  next
    case False
    show ?thesis
    proof (cases "key = ''values''")
      case k: True
      show ?thesis
      proof (cases j)
        case (JObject vals)
        with False k have "\<not> list_all (\<lambda>kv. is_string (snd kv)) vals" by simp
        then show ?thesis
          by (simp add: kv k JObject values_loop_bad is_value_parsing_error_def)
      qed (simp_all add: kv k is_value_parsing_error_def)
    next
      case k: False
      with False show ?thesis
        by (cases j) (simp_all add: kv is_value_parsing_error_def)
    qed
  qed
qed

text \<open>
  The outer loop fills the slots \<open>i, i + 1, ...\<close> of \<open>res\<close> in the order of the
  elements and leaves the other slots alone.
\<close>

lemma elements_loop_ok:
  "map (element_params unmarshal) items = map Inr ps \<Longrightarrow> i + length items \<le> length res \<Longrightarrow>
   elements_loop unmarshal items i res = Inr (take i res @ ps @ drop (i + length items) res)"
proof (induction items arbitrary: i res ps)
  case Nil
  then show ?case by simp
next
  case (Cons x items)
  from Cons.prems(1) obtain p ps' where ps: "ps = p # ps'"
    and p: "element_params unmarshal x = Inr p"
    and rest: "map (element_params unmarshal) items = map Inr ps'"
    by (cases ps) auto
  from Cons.prems(2) have i: "i < length res" and le: "Suc i + length items \<le> length (res[i := p])"
    by simp_all
  have "elements_loop unmarshal items (Suc i) (res[i := p])
      = Inr (take (Suc i) (res[i := p]) @ ps' @ drop (Suc i + length items) (res[i := p]))"
    by (rule Cons.IH [OF rest le])
  moreover have "take (Suc i) (res[i := p]) = take i res @ [p]"
    using i by (simp add: take_Suc_conv_app_nth)
  ultimately show ?case by (simp add: p ps)
qed

lemma elements_loop_value_error:
  "\<forall>y\<in>set pre. \<exists>el. unmarshal y = Inr el \<Longrightarrow> element_params unmarshal x = Inl e \<Longrightarrow>
   is_value_parsing_error e \<Longrightarrow>
   \<exists>e'. elements_loop unmarshal (pre @ x # post) i res = Inl e' \<and> is_value_parsing_error e'"
proof (induction pre arbitrary: i res)
  case Nil
  then show ?case by simp
next
  case (Cons y pre)
  from Cons.prems(1) obtain el where el: "unmarshal y = Inr el" by auto
  show ?case
  proof (cases "element_ok el")
    case True
    then have "element_params unmarshal y = Inr (Map.empty ++ map_of (rev (flatten_spec el)))"
      by (simp add: element_params_def el element_loop_ok)
    moreover from Cons.prems(1) have "\<forall>y\<in>set pre. \<exists>el. unmarshal y = Inr el" by simp
    note Cons.IH [OF this Cons.prems(2,3)]
    ultimately show ?thesis by simp
  next
    case False
    from element_loop_bad [OF this, of Map.empty] show ?thesis
      by (auto simp: element_params_def el)
  qed
qed

lemma elements_loop_no_partial:
  "x \<in> set items \<Longrightarrow> element_params unmarshal x = Inl e \<Longrightarrow>
   \<exists>e'. elements_loop unmarshal items i res = Inl e'"
proof (induction items arbitrary: i res)
  case Nil
  then show ?case by simp
next
  case (Cons y items)
  show ?case
  proof (cases "element_params unmarshal y")
    case (Inl e')
    then show ?thesis by simp
  next
    case (Inr p)
    with Cons.prems Inr have "x \<in> set items" by auto
    from Cons.IH [OF this Cons.prems(2)] show ?thesis by (simp add: Inr)
  qed
qed

text \<open>Which entries the flattening rule yields.\<close>

lemma set_values_entries:
  "((n, v) \<in> set (values_entries vals)) = (\<exists>k. (k, JString v) \<in> set vals \<and> n = ''values.'' @ k)"
proof (induction vals)
  case Nil
  then show ?case by simp
next
  case (Cons kv vals)
  obtain k j where kv: "kv = (k, j)" by (cases kv)
  show ?case using Cons.IH by (cases j) (auto simp: kv)
qed

lemma set_flatten_field:
  "((n, v) \<in> set (flatten_field (key, j))) =
     (key \<noteq> ''values'' \<and> n = key \<and> j = JString v \<or>
      key = ''values'' \<and> (\<exists>vals k. j = JObject vals \<and> (k, JString v) \<in> set vals \<and>
         n = ''values.'' @ k))"
  by (cases j) (auto simp: set_values_entries)

lemma set_flatten_spec:
  "((n, v) \<in> set (flatten_spec element)) =
     (n \<noteq> ''values'' \<and> (n, JString v) \<in> set element \<or>
      (\<exists>vals k. (''values'', JObject vals) \<in> set element \<and> (k, JString v) \<in> set vals \<and>
         n = ''values.'' @ k))"
proof (induction element)
  case Nil
  then show ?case by (simp add: flatten_spec_def)
next
  case (Cons kv element)
  obtain key j where kv: "kv = (key, j)" by (cases kv)
  have "((n, v) \<in> set (flatten_spec (kv # element))) =
     ((n, v) \<in> set (flatten_field (key, j)) \<or> (n, v) \<in> set (flatten_spec element))"
    by (simp add: flatten_spec_def kv)
  also have "\<dots> = ((key \<noteq> ''values'' \<and> n = key \<and> j = JString v \<or>
      key = ''values'' \<and> (\<exists>vals k. j = JObject vals \<and> (k, JString v) \<in> set vals \<and>
         n = ''values.'' @ k)) \<or>
     (n \<noteq> ''values'' \<and> (n, JString v) \<in> set element \<or>
      (\<exists>vals k. (''values'', JObject vals) \<in> set element \<and> (k, JString v) \<in> set vals \<and>
         n = ''values.'' @ k)))"
    by (simp only: set_flatten_field Cons.IH)
  also have "\<dots> = (n \<noteq> ''values'' \<and> (n, JString v) \<in> set (kv # element) \<or>
      (\<exists>vals k. (''values'', JObject vals) \<in> set (kv # element) \<and> (k, JString v) \<in> set vals \<and>
         n = ''values.'' @ k))"
    unfolding kv by (simp only: set_simps insert_iff prod.inject) blast
  finally show ?case .
qed

lemma map_of_rev_dom: "dom (map_of (rev xs)) = fst ` set xs"
  by (simp add: dom_map_of_conv_image_fst)

lemma map_of_rev_entry: "map_of (rev xs) n = Some v \<Longrightarrow> (n, v) \<in> set xs"
  by (drule map_of_SomeD) simp

lemma map_of_rev_consistent:
  assumes "(n, v) \<in> set xs" and "\<And>v'. (n, v') \<in> set xs \<Longrightarrow> v' = v"
  shows "map_of (rev xs) n = Some v"
proof -
  from assms(1) have "n \<in> dom (map_of (rev xs))"
    by (simp add: map_of_rev_dom) force
  then obtain v' where v': "map_of (rev xs) n = Some v'" by blast
  then have "(n, v') \<in> set xs" by (rule map_of_rev_entry)
  with assms(2) v' show ?thesis by simp
qed

lemma distinct_fst_unique:
  "distinct (map fst xs) \<Longrightarrow> (k, a) \<in> set xs \<Longrightarrow> (k, b) \<in> set xs \<Longrightarrow> a = b"
  by (rule eq_key_imp_eq_value)

section \<open>The canonicalizer and the merge\<close>

lemma set_dedup_from: "set (dedup_from seen ks) = set ks - set seen"
  by (induction ks arbitrary: seen) auto

lemma dedup_from_fixed:
  "distinct ks \<Longrightarrow> set ks \<inter> set seen = {} \<Longrightarrow> dedup_from seen ks = ks"
  by (induction ks arbitrary: seen) auto

lemma distinct_dedup_from: "distinct (dedup_from seen ks)"
  by (induction ks arbitrary: seen) (auto simp: set_dedup_from)

lemma dedup_idem: "dedup (dedup ks) = dedup ks"
  unfolding dedup_def by (rule dedup_from_fixed) (simp_all add: distinct_dedup_from)

lemma dedup_Nil_iff: "(dedup ks = []) = (ks = [])"
proof -
  have "set (dedup ks) = set ks" by (simp add: dedup_def set_dedup_from)
  then show ?thesis by (metis set_empty)
qed

lemma signature_dedup: "signature (dedup ks) p = signature ks p"
  by (simp add: signature_def dedup_idem)

lemma index_loop_dedup: "index_loop (dedup ks) ps acc = index_loop ks ps acc"
  by (induction ps arbitrary: acc) (simp_all add: signature_dedup Let_def)

lemma signature_missing_key:
  "p k = None \<Longrightarrow> signature ks (p(k \<mapsto> [])) = signature ks p"
proof -
  assume "p k = None"
  then have "(\<lambda>k'. (k', case (p(k \<mapsto> [])) k' of None \<Rightarrow> [] | Some v \<Rightarrow> v))
           = (\<lambda>k'. (k', case p k' of None \<Rightarrow> [] | Some v \<Rightarrow> v))"
    by (auto simp: fun_eq_iff)
  then show ?thesis by (simp only: signature_def)
qed

text \<open>
  Applying overlay rows one after the other gives every base row the overlay rows of
  its own signature, in their order, and nothing else.
\<close>

lemma foldl_merge_row:
  "foldl (merge_row ks) base rows =
     map (\<lambda>(s, b). (s, foldl (++) b (filter (\<lambda>r. signature ks r = s) rows))) base"
proof (induction rows arbitrary: base)
  case Nil
  then show ?case by simp
next
  case (Cons r rows)
  have "foldl (merge_row ks) base (r # rows) = foldl (merge_row ks) (merge_row ks base r) rows"
    by simp
  also have "\<dots> = map (\<lambda>(s, b). (s, foldl (++) b (filter (\<lambda>r. signature ks r = s) rows)))
                    (merge_row ks base r)"
    by (rule Cons.IH)
  also have "\<dots> = map (\<lambda>(s, b). (s, foldl (++) b (filter (\<lambda>r. signature ks r = s) (r # rows)))) base"
    by (auto simp: merge_row_def)
  finally show ?case .
qed

lemma apply_overlays_ok:
  "map getParams gs = map Inr rowss \<Longrightarrow>
   apply_overlays getParams ks gs base = Inr (foldl (merge_row ks) base (concat rowss))"
proof (induction gs arbitrary: base rowss)
  case Nil
  then show ?case by simp
next
  case (Cons g gs)
  from Cons.prems obtain rows rowss' where rowss: "rowss = rows # rowss'"
    and g: "getParams g = Inr rows" and rest: "map getParams gs = map Inr rowss'"
    by (cases rowss) auto
  show ?case by (simp add: g rowss Cons.IH [OF rest])
qed

text \<open>The index of rows with distinct signatures, and the first duplicate.\<close>

lemma index_loop_ok:
  "distinct (map (signature ks) ps) \<Longrightarrow> \<forall>p\<in>set ps. acc (signature ks p) = None \<Longrightarrow>
   \<exists>m. index_loop ks ps acc = Inr m \<and> dom m = dom acc \<union> signature ks ` set ps \<and>
       (\<forall>p\<in>set ps. m (signature ks p) = Some p) \<and> (\<forall>s\<in>dom acc. m s = acc s)"
proof (induction ps arbitrary: acc)
  case Nil
  then show ?case by simp
next
  case (Cons p ps)
  let ?acc = "acc(signature ks p \<mapsto> p)"
  from Cons.prems have d: "distinct (map (signature ks) ps)"
    and notin: "signature ks p \<notin> signature ks ` set ps"
    and p: "acc (signature ks p) = None"
    and acc: "\<forall>q\<in>set ps. acc (signature ks q) = None"
    by simp_all
  have fresh: "\<forall>q\<in>set ps. ?acc (signature ks q) = None"
  proof
    fix q assume q: "q \<in> set ps"
    then have "signature ks q \<in> signature ks ` set ps" by (rule imageI)
    with notin have "signature ks q \<noteq> signature ks p" by metis
    with acc q show "?acc (signature ks q) = None" by simp
  qed
  from Cons.IH [OF d fresh] obtain m where m: "index_loop ks ps ?acc = Inr m"
    and dm: "dom m = dom ?acc \<union> signature ks ` set ps"
    and rows: "\<forall>q\<in>set ps. m (signature ks q) = Some q"
    and old: "\<forall>s\<in>dom ?acc. m s = ?acc s"
    by blast
  have "index_loop ks (p # ps) acc = Inr m" by (simp add: p m)
  moreover have "dom m = dom acc \<union> signature ks ` set (p # ps)" using dm by auto
  moreover have "\<forall>q\<in>set (p # ps). m (signature ks q) = Some q" using rows old by auto
  moreover have "\<forall>s\<in>dom acc. m s = acc s" using old p by (auto simp: dom_def)
  ultimately show ?case by blast
qed

lemma index_loop_dup:
  "distinct (map (signature ks) pre) \<Longrightarrow> \<forall>q\<in>set pre. acc (signature ks q) = None \<Longrightarrow>
   acc (signature ks p) \<noteq> None \<or> signature ks p \<in> signature ks ` set pre \<Longrightarrow>
   index_loop ks (pre @ p # post) acc = Inl (NonUniqueParamSets (signature ks p))"
proof (induction pre arbitrary: acc)
  case Nil
  then show ?case by simp
next
  case (Cons q pre)
  let ?acc = "acc(signature ks q \<mapsto> q)"
  from Cons.prems have d: "distinct (map (signature ks) pre)"
    and notin: "signature ks q \<notin> signature ks ` set pre"
    and q: "acc (signature ks q) = None"
    and acc: "\<forall>r\<in>set pre. acc (signature ks r) = None"
    by simp_all
  have fresh: "\<forall>r\<in>set pre. ?acc (signature ks r) = None"
  proof
    fix r assume r: "r \<in> set pre"
    then have "signature ks r \<in> signature ks ` set pre" by (rule imageI)
    with notin have "signature ks r \<noteq> signature ks q" by metis
    with acc r show "?acc (signature ks r) = None" by simp
  qed
  from Cons.prems(3)
  have "?acc (signature ks p) \<noteq> None \<or> signature ks p \<in> signature ks ` set pre"
    by (cases "signature ks p = signature ks q") auto
  then have "index_loop ks (pre @ p # post) ?acc = Inl (NonUniqueParamSets (signature ks p))"
    by (rule Cons.IH [OF d fresh])
  moreover have "index_loop ks ((q # pre) @ p # post) acc = index_loop ks (pre @ p # post) ?acc"
    by (simp add: q)
  ultimately show ?case by (simp only:)
qed

text \<open>The result of a valid merge, in closed form.\<close>

lemma Merge_valid:
  assumes m: "Merge g = Some m"
    and gens: "Generators m = baseGen # overlayGens" "overlayGens \<noteq> []"
    and keys: "dedup (MergeKeys m) \<noteq> []"
    and base: "getParams baseGen = Inr base"
    and uniq: "distinct (map (signature (MergeKeys m)) base)"
    and ovs: "map getParams overlayGens = map Inr overlayRows"
  shows "MergeGenerateParams getParams (Some g) =
     Inr (map (\<lambda>b. foldl (++) b
                 (filter (\<lambda>r. signature (MergeKeys m) r = signature (MergeKeys m) b)
                    (concat overlayRows))) base)"
proof -
  from gens have len: "\<not> length (Generators m) < 2" by (cases overlayGens) simp_all
  from keys have ne: "MergeKeys m \<noteq> []" by (simp add: dedup_Nil_iff)
  from index_loop_ok [OF uniq, of Map.empty]
  obtain ix where ix: "getParamSetsByMergeKey (MergeKeys m) base = Inr ix"
    by (auto simp: getParamSetsByMergeKey_def ne)
  show ?thesis
    by (simp add: MergeGenerateParams_def m len keys gens base ix apply_overlays_ok [OF ovs]
        foldl_merge_row comp_def)
qed

section \<open>Claims about the Merge generator and the canonicalizer\<close>

text \<open>
  Claim C1. In a valid Merge evaluation every output row is its base row into which
  the overlay rows with the same merge-key signature have been merged, in order: a
  field of the overlay row overwrites the base row's field of the same name or is
  added, and a base field absent from the overlay row is kept. Scenario A of the
  specification, with the three nested List generators of the test, yields exactly
  \<open>[{a: 2_1, b: same, c: 1_3}]\<close>.
\<close>

theorem Merge_overlay_application:
  assumes "Merge g = Some m"
    and "Generators m = baseGen # overlayGens" and "overlayGens \<noteq> []"
    and "dedup (MergeKeys m) \<noteq> []"
    and "getParams baseGen = Inr base"
    and "distinct (map (signature (MergeKeys m)) base)"
    and "map getParams overlayGens = map Inr overlayRows"
  shows "(\<exists>res. MergeGenerateParams getParams (Some g) = Inr res \<and>
           length res = length base \<and>
           (\<forall>i<length base.
              res ! i = foldl (\<lambda>b overlayRow. (\<lambda>k. case overlayRow k of Some v \<Rightarrow> Some v | None \<Rightarrow> b k))
                (base ! i)
                (filter (\<lambda>r. signature (MergeKeys m) r = signature (MergeKeys m) (base ! i))
                   (concat overlayRows)))) \<and>
         MergeGenerateParams (GenerateParams Inr)
           (Some \<lparr>List = None,
                  Merge = Some \<lparr>Generators =
                      [getNestedListGenerator
                         [(''a'', JString ''1_1''), (''b'', JString ''same''), (''c'', JString ''1_3'')],
                       getNestedListGenerator [(''a'', JString ''2_1''), (''b'', JString ''same'')],
                       getNestedListGenerator
                         [(''a'', JString ''3_1''), (''b'', JString ''different''),
                          (''c'', JString ''3_3'')]],
                    MergeKeys = [''b''], MergeTemplate = ()\<rparr>\<rparr>)
         = Inr [[''a'' \<mapsto> ''2_1'', ''b'' \<mapsto> ''same'', ''c'' \<mapsto> ''1_3'']]"
proof (rule conjI)
  have add: "(++) = (\<lambda>b overlayRow. (\<lambda>k. case overlayRow k of Some v \<Rightarrow> Some v | None \<Rightarrow> b k))"
    by (auto simp: fun_eq_iff map_add_def split: option.splits)
  have "MergeGenerateParams getParams (Some g) =
     Inr (map (\<lambda>b. foldl (++) b
                 (filter (\<lambda>r. signature (MergeKeys m) r = signature (MergeKeys m) b)
                    (concat overlayRows))) base)"
    by (rule Merge_valid [OF assms])
  then show "\<exists>res. MergeGenerateParams getParams (Some g) = Inr res \<and>
           length res = length base \<and>
           (\<forall>i<length base.
              res ! i = foldl (\<lambda>b overlayRow. (\<lambda>k. case overlayRow k of Some v \<Rightarrow> Some v | None \<Rightarrow> b k))
                (base ! i)
                (filter (\<lambda>r. signature (MergeKeys m) r = signature (MergeKeys m) (base ! i))
                   (concat overlayRows)))"
    by (simp add: add)
next
  have s1: "signature [''b''] (Map.empty(''a'' \<mapsto> ''1_1'', ''b'' \<mapsto> ''same'', ''c'' \<mapsto> ''1_3''))
      = signature [''b''] (Map.empty(''a'' \<mapsto> ''2_1'', ''b'' \<mapsto> ''same''))"
    by (simp add: signature_def dedup_def)
  have s2: "signature [''b''] (Map.empty(''a'' \<mapsto> ''1_1'', ''b'' \<mapsto> ''same'', ''c'' \<mapsto> ''1_3''))
      \<noteq> signature [''b''] (Map.empty(''a'' \<mapsto> ''3_1'', ''b'' \<mapsto> ''different'', ''c'' \<mapsto> ''3_3''))"
    by (simp add: signature_def dedup_def marshal_def json_quote_def)
  have m: "[''c'' \<mapsto> ''1_3'', ''a'' \<mapsto> ''2_1'', ''b'' \<mapsto> ''same'']
         = [''a'' \<mapsto> ''2_1'', ''b'' \<mapsto> ''same'', ''c'' \<mapsto> ''1_3'']"
    by (auto simp: fun_eq_iff)
  show "MergeGenerateParams (GenerateParams Inr)
           (Some \<lparr>List = None,
                  Merge = Some \<lparr>Generators =
                      [getNestedListGenerator
                         [(''a'', JString ''1_1''), (''b'', JString ''same''), (''c'', JString ''1_3'')],
                       getNestedListGenerator [(''a'', JString ''2_1''), (''b'', JString ''same'')],
                       getNestedListGenerator
                         [(''a'', JString ''3_1''), (''b'', JString ''different''),
                          (''c'', JString ''3_3'')]],
                    MergeKeys = [''b''], MergeTemplate = ()\<rparr>\<rparr>)
         = Inr [[''a'' \<mapsto> ''2_1'', ''b'' \<mapsto> ''same'', ''c'' \<mapsto> ''1_3'']]"
    using s2 s2 [symmetric]
    by (simp add: MergeGenerateParams_def getNestedListGenerator_def GenerateParams_def
        element_params_def getParamSetsByMergeKey_def dedup_def merge_row_def s1 m)
qed

text \<open>
  The theorem at a base row \<open>{a: 1, b: x}\<close> and an overlay row \<open>{b: x, c: 3}\<close> with
  merge key \<open>b\<close>: the overlay's \<open>c\<close> is added and the base's \<open>a\<close> is kept.
\<close>

theorem Merge_overlay_application_witness:
  "\<exists>res. MergeGenerateParams (GenerateParams Inr)
      (Some \<lparr>List = (None :: (object, unit) ListGenerator option),
             Merge = Some \<lparr>Generators =
                 [getNestedListGenerator [(''a'', JString ''1''), (''b'', JString ''x'')],
                  getNestedListGenerator [(''b'', JString ''x''), (''c'', JString ''3'')]],
               MergeKeys = [''b''], MergeTemplate = ()\<rparr>\<rparr>) = Inr res \<and>
     length res = 1 \<and>
     (res ! 0) ''a'' = Some ''1'' \<and> (res ! 0) ''b'' = Some ''x'' \<and> (res ! 0) ''c'' = Some ''3''"
proof -
  let ?baseGen = "getNestedListGenerator [(''a'', JString ''1''), (''b'', JString ''x'')]"
  let ?overlayGen = "getNestedListGenerator [(''b'', JString ''x''), (''c'', JString ''3'')]"
  let ?m = "\<lparr>Generators = [?baseGen, ?overlayGen], MergeKeys = [''b''], MergeTemplate = ()\<rparr>"
  let ?g = "\<lparr>List = (None :: (object, unit) ListGenerator option), Merge = Some ?m\<rparr>"
  let ?b = "[''a'' \<mapsto> ''1'', ''b'' \<mapsto> ''x'']"
  let ?r = "[''b'' \<mapsto> ''x'', ''c'' \<mapsto> ''3'']"
  have h1: "Merge ?g = Some ?m" by simp
  have h2: "Generators ?m = ?baseGen # [?overlayGen]" by simp
  have h3: "[?overlayGen] \<noteq> []" by simp
  have h4: "dedup (MergeKeys ?m) \<noteq> []" by (simp add: dedup_def)
  have h5: "GenerateParams Inr ?baseGen = Inr [?b]"
    by (simp add: getNestedListGenerator_def GenerateParams_def element_params_def)
  have h6: "distinct (map (signature (MergeKeys ?m)) [?b])" by simp
  have h7: "map (GenerateParams Inr) [?overlayGen] = map Inr [[?r]]"
    by (simp add: getNestedListGenerator_def GenerateParams_def element_params_def)
  have sig: "signature [''b''] ?r = signature [''b''] ?b"
    by (simp add: signature_def dedup_def)
  from Merge_overlay_application [OF h1 h2 h3 h4 h5 h6 h7]
  obtain res where res: "MergeGenerateParams (GenerateParams Inr) (Some ?g) = Inr res"
    and len: "length res = length [?b]"
    and row: "\<forall>i<length [?b]. res ! i =
        foldl (\<lambda>b overlayRow. (\<lambda>k. case overlayRow k of Some v \<Rightarrow> Some v | None \<Rightarrow> b k))
          ([?b] ! i)
          (filter (\<lambda>r. signature (MergeKeys ?m) r = signature (MergeKeys ?m) ([?b] ! i))
             (concat [[?r]]))"
    by blast
  from row have "res ! 0 =
        foldl (\<lambda>b overlayRow. (\<lambda>k. case overlayRow k of Some v \<Rightarrow> Some v | None \<Rightarrow> b k)) ?b [?r]"
    by (simp add: sig)
  then have "(res ! 0) ''a'' = Some ''1'' \<and> (res ! 0) ''b'' = Some ''x'' \<and> (res ! 0) ''c'' = Some ''3''"
    by simp
  with res len show ?thesis by simp
qed

text \<open>
  Claim C2. A valid Merge evaluation (at least two generators, at least one merge key
  after deduplication, base signatures pairwise distinct, no nested generator failing)
  returns as many rows as the base generator produced, whatever the overlays produce.
  Each output row depends only on its base row and on the overlay rows of its
  signature, so an overlay row matching no base row changes nothing: it is neither
  added nor reported. A base row matched by no overlay row is returned unchanged, and
  a missing merge-key field counts as the empty string in the signature.
\<close>

theorem Merge_row_count:
  assumes "Merge g = Some m"
    and "Generators m = baseGen # overlayGens" and "overlayGens \<noteq> []"
    and "dedup (MergeKeys m) \<noteq> []"
    and "getParams baseGen = Inr base"
    and "distinct (map (signature (MergeKeys m)) base)"
    and "map getParams overlayGens = map Inr overlayRows"
  shows "\<exists>res. MergeGenerateParams getParams (Some g) = Inr res \<and>
           length res = length base \<and>
           res = map (\<lambda>b. foldl (++) b
                   (filter (\<lambda>r. signature (MergeKeys m) r = signature (MergeKeys m) b)
                      (concat overlayRows))) base \<and>
           (\<forall>i<length base.
              (\<forall>r\<in>set (concat overlayRows).
                 signature (MergeKeys m) r \<noteq> signature (MergeKeys m) (base ! i)) \<longrightarrow>
              res ! i = base ! i) \<and>
           (\<forall>p k. p k = None \<longrightarrow>
              signature (MergeKeys m) (p(k \<mapsto> [])) = signature (MergeKeys m) p)"
proof -
  let ?res = "map (\<lambda>b. foldl (++) b
                   (filter (\<lambda>r. signature (MergeKeys m) r = signature (MergeKeys m) b)
                      (concat overlayRows))) base"
  have res: "MergeGenerateParams getParams (Some g) = Inr ?res"
    by (rule Merge_valid [OF assms])
  have "?res ! i = base ! i"
    if "i < length base"
      and "\<forall>r\<in>set (concat overlayRows).
             signature (MergeKeys m) r \<noteq> signature (MergeKeys m) (base ! i)" for i
  proof -
    from that(2)
    have "filter (\<lambda>r. signature (MergeKeys m) r = signature (MergeKeys m) (base ! i))
            (concat overlayRows) = []"
      by (simp add: filter_empty_conv)
    with that(1) show ?thesis by simp
  qed
  with res show ?thesis by (simp add: signature_missing_key)
qed

text \<open>
  Scenario B of the specification: base \<open>{a: a}\<close>, overlay \<open>{b: b}\<close>, merge key \<open>b\<close>.
\<close>

theorem Merge_row_count_witness:
  "MergeGenerateParams (GenerateParams Inr)
      (Some \<lparr>List = (None :: (object, unit) ListGenerator option),
             Merge = Some \<lparr>Generators =
                 [getNestedListGenerator [(''a'', JString ''a'')],
                  getNestedListGenerator [(''b'', JString ''b'')]],
               MergeKeys = [''b''], MergeTemplate = ()\<rparr>\<rparr>) = Inr [[''a'' \<mapsto> ''a'']]"
  using Merge_row_count
    [where g = "\<lparr>List = (None :: (object, unit) ListGenerator option),
             Merge = Some \<lparr>Generators =
                 [getNestedListGenerator [(''a'', JString ''a'')],
                  getNestedListGenerator [(''b'', JString ''b'')]],
               MergeKeys = [''b''], MergeTemplate = ()\<rparr>\<rparr>"
      and m = "\<lparr>Generators =
                 [getNestedListGenerator [(''a'', JString ''a'')],
                  getNestedListGenerator [(''b'', JString ''b'')]],
               MergeKeys = [''b''], MergeTemplate = ()\<rparr>"
      and baseGen = "getNestedListGenerator [(''a'', JString ''a'')]"
      and overlayGens = "[getNestedListGenerator [(''b'', JString ''b'')]]"
      and getParams = "GenerateParams Inr"
      and base = "[[''a'' \<mapsto> ''a'']]"
      and overlayRows = "[[[''b'' \<mapsto> ''b'']]]"]
  by (simp add: getNestedListGenerator_def GenerateParams_def element_params_def dedup_def
      signature_def marshal_def json_quote_def)

text \<open>
  Claim C3. \<open>getParamSetsByMergeKey\<close> fails with \<open>NoMergeKeys\<close> when the list of merge
  keys is empty. With merge keys, when \<open>p\<close> is the first row whose signature already
  occurred (the rows \<open>pre\<close> before it have distinct signatures), it fails with
  \<open>NonUniqueParamSets\<close>, whose message ends with the signature of \<open>p\<close>. With merge
  keys and pairwise distinct signatures it returns a map whose keys are the rows'
  signatures and which sends each row's signature to that row.
\<close>

theorem getParamSetsByMergeKey_spec:
  "getParamSetsByMergeKey [] paramSets = Inl NoMergeKeys \<and>
   (mergeKeys \<noteq> [] \<and> distinct (map (signature mergeKeys) pre) \<and>
      signature mergeKeys p \<in> signature mergeKeys ` set pre \<longrightarrow>
      getParamSetsByMergeKey mergeKeys (pre @ p # post)
        = Inl (NonUniqueParamSets (signature mergeKeys p)) \<and>
      error_string (NonUniqueParamSets (signature mergeKeys p))
        = ''param sets are not unique. Duplicate key was '' @ signature mergeKeys p) \<and>
   (mergeKeys \<noteq> [] \<and> distinct (map (signature mergeKeys) paramSets) \<longrightarrow>
      (\<exists>m. getParamSetsByMergeKey mergeKeys paramSets = Inr m \<and>
           dom m = signature mergeKeys ` set paramSets \<and>
           (\<forall>q\<in>set paramSets. m (signature mergeKeys q) = Some q)))"
proof (intro conjI impI)
  show "getParamSetsByMergeKey [] paramSets = Inl NoMergeKeys"
    by (simp add: getParamSetsByMergeKey_def)
next
  assume a: "mergeKeys \<noteq> [] \<and> distinct (map (signature mergeKeys) pre) \<and>
      signature mergeKeys p \<in> signature mergeKeys ` set pre"
  then have "index_loop mergeKeys (pre @ p # post) Map.empty
      = Inl (NonUniqueParamSets (signature mergeKeys p))"
    by (intro index_loop_dup) simp_all
  with a show "getParamSetsByMergeKey mergeKeys (pre @ p # post)
        = Inl (NonUniqueParamSets (signature mergeKeys p))"
    by (simp add: getParamSetsByMergeKey_def)
next
  show "error_string (NonUniqueParamSets (signature mergeKeys p))
        = ''param sets are not unique. Duplicate key was '' @ signature mergeKeys p"
    by simp
next
  assume a: "mergeKeys \<noteq> [] \<and> distinct (map (signature mergeKeys) paramSets)"
  then have d: "distinct (map (signature mergeKeys) paramSets)" by simp
  from index_loop_ok [OF d, of Map.empty] a
  show "\<exists>m. getParamSetsByMergeKey mergeKeys paramSets = Inr m \<and>
           dom m = signature mergeKeys ` set paramSets \<and>
           (\<forall>q\<in>set paramSets. m (signature mergeKeys q) = Some q)"
    by (auto simp: getParamSetsByMergeKey_def)
qed

text \<open>Two cases of the tests, "simple key, non-unique paramSets" and "unique paramSets".\<close>

theorem getParamSetsByMergeKey_spec_witness:
  \<open>getParamSetsByMergeKey [''key''] [[''key'' \<mapsto> ''a''], [''key'' \<mapsto> ''b''], [''key'' \<mapsto> ''b'']]
     = Inl (NonUniqueParamSets ''{"key":"b"}'') \<and>
   (\<exists>m. getParamSetsByMergeKey [''key''] [[''key'' \<mapsto> ''a''], [''key'' \<mapsto> ''b'']] = Inr m \<and>
        m ''{"key":"a"}'' = Some [''key'' \<mapsto> ''a''] \<and> m ''{"key":"b"}'' = Some [''key'' \<mapsto> ''b''])\<close>
proof -
  let ?a = "[''key'' \<mapsto> ''a'']" and ?b = "[''key'' \<mapsto> ''b'']"
  have sa: \<open>signature [''key''] ?a = ''{"key":"a"}''\<close>
    by (simp add: signature_def dedup_def marshal_def json_quote_def)
  have sb: \<open>signature [''key''] ?b = ''{"key":"b"}''\<close>
    by (simp add: signature_def dedup_def marshal_def json_quote_def)
  have d: "distinct (map (signature [''key'']) [?a, ?b])" by (simp add: sa sb)
  have dup: "signature [''key''] ?b \<in> signature [''key''] ` set [?a, ?b]" by simp
  note spec = getParamSetsByMergeKey_spec
    [where mergeKeys = "[''key'']" and pre = "[?a, ?b]" and p = ?b and post = "[]"
      and paramSets = "[?a, ?b]"]
  from spec d dup
  have "getParamSetsByMergeKey [''key''] ([?a, ?b] @ ?b # [])
      = Inl (NonUniqueParamSets (signature [''key''] ?b))"
    by blast
  then have 1: \<open>getParamSetsByMergeKey [''key''] [?a, ?b, ?b]
      = Inl (NonUniqueParamSets ''{"key":"b"}'')\<close>
    by (simp add: sb)
  from spec d obtain m where m: "getParamSetsByMergeKey [''key''] [?a, ?b] = Inr m"
    and rows: "\<forall>q\<in>set [?a, ?b]. m (signature [''key''] q) = Some q"
    by blast
  from rows have "m (signature [''key''] ?a) = Some ?a" and "m (signature [''key''] ?b) = Some ?b"
    by simp_all
  then have \<open>m ''{"key":"a"}'' = Some ?a\<close> and \<open>m ''{"key":"b"}'' = Some ?b\<close>
    by (simp_all only: sa sb)
  with 1 m show ?thesis by blast
qed

text \<open>
  Claim C4. Repeating a name in the list of merge keys changes neither the signature
  nor the result of indexing: both are the same for the list and for its deduplication.
\<close>

theorem signature_repeated_keys:
  "signature (dedup mergeKeys) paramSet = signature mergeKeys paramSet \<and>
   getParamSetsByMergeKey (dedup mergeKeys) paramSets = getParamSetsByMergeKey mergeKeys paramSets"
  by (simp add: signature_dedup getParamSetsByMergeKey_def dedup_Nil_iff index_loop_dedup)

text \<open>
  Claim C5. A Merge spec with fewer than two nested generators fails with
  \<open>LessThanTwoGeneratorsInMerge\<close>, whatever its merge keys are and whatever the
  evaluation \<open>getParams\<close> of nested generators would return: none is evaluated.
\<close>

theorem Merge_less_than_two_generators:
  assumes "Merge g = Some m" and "length (Generators m) < 2"
  shows "MergeGenerateParams getParams (Some g) = Inl LessThanTwoGeneratorsInMerge \<and>
         error_string LessThanTwoGeneratorsInMerge
           = ''there should be at least two generators in merge''"
  using assms by (simp add: MergeGenerateParams_def)

text \<open>The case "one generator" of the tests.\<close>

theorem Merge_less_than_two_generators_witness:
  "MergeGenerateParams (GenerateParams Inr)
      (Some \<lparr>List = (None :: (object, unit) ListGenerator option),
             Merge = Some \<lparr>Generators =
                 [getNestedListGenerator
                    [(''a'', JString ''1_1''), (''b'', JString ''same''), (''c'', JString ''1_3'')]],
               MergeKeys = [''b''], MergeTemplate = ()\<rparr>\<rparr>)
     = Inl LessThanTwoGeneratorsInMerge"
  using Merge_less_than_two_generators
    [where g = "\<lparr>List = (None :: (object, unit) ListGenerator option),
             Merge = Some \<lparr>Generators =
                 [getNestedListGenerator
                    [(''a'', JString ''1_1''), (''b'', JString ''same''), (''c'', JString ''1_3'')]],
               MergeKeys = [''b''], MergeTemplate = ()\<rparr>\<rparr>"
      and m = "\<lparr>Generators =
                 [getNestedListGenerator
                    [(''a'', JString ''1_1''), (''b'', JString ''same''), (''c'', JString ''1_3'')]],
               MergeKeys = [''b''], MergeTemplate = ()\<rparr>"
      and getParams = "GenerateParams Inr"]
  by simp

section \<open>Claims about the List generator\<close>

text \<open>
  Claim C6. When every element of a List spec decodes to an object that passes the
  flattening rule, \<open>GenerateParams\<close> returns a list with one ParamSet per element: it
  has the length of the element list, and its \<open>i\<close>-th entry is the ParamSet of the
  \<open>i\<close>-th element.
\<close>

theorem GenerateParams_length_order:
  assumes "List g = Some l"
    and "list_all (\<lambda>x. case unmarshal x of Inl err \<Rightarrow> False | Inr element \<Rightarrow> element_ok element)
           (Elements l)"
  shows "\<exists>res. GenerateParams unmarshal (Some g) = Inr res \<and>
           length res = length (Elements l) \<and>
           (\<forall>i<length (Elements l). element_params unmarshal (Elements l ! i) = Inr (res ! i))"
proof -
  define ps where "ps = map (\<lambda>x. case element_params unmarshal x of Inr p \<Rightarrow> p) (Elements l)"
  have "element_params unmarshal x = Inr (case element_params unmarshal x of Inr p \<Rightarrow> p)"
    if "x \<in> set (Elements l)" for x
  proof -
    from assms(2) that
    have "case unmarshal x of Inl err \<Rightarrow> False | Inr element \<Rightarrow> element_ok element"
      by (simp add: list_all_iff)
    then obtain element where "unmarshal x = Inr element" "element_ok element"
      by (cases "unmarshal x") simp_all
    then show ?thesis by (simp add: element_params_def element_loop_ok)
  qed
  then have eq: "map (element_params unmarshal) (Elements l) = map Inr ps"
    by (simp add: ps_def)
  have "elements_loop unmarshal (Elements l) 0 (replicate (length (Elements l)) Map.empty)
      = Inr (take 0 (replicate (length (Elements l)) Map.empty) @ ps
             @ drop (0 + length (Elements l)) (replicate (length (Elements l)) Map.empty))"
    by (rule elements_loop_ok [OF eq]) simp
  then have res: "GenerateParams unmarshal (Some g) = Inr ps"
    by (simp add: GenerateParams_def assms(1))
  have len: "length ps = length (Elements l)" by (simp add: ps_def)
  have "element_params unmarshal (Elements l ! i) = Inr (ps ! i)" if "i < length (Elements l)" for i
  proof -
    from eq have "map (element_params unmarshal) (Elements l) ! i = map Inr ps ! i" by simp
    with that len show ?thesis by simp
  qed
  with res len show ?thesis by blast
qed

text \<open>Two elements, the first with a \<open>values\<close> object.\<close>

theorem GenerateParams_length_order_witness:
  "\<exists>res. GenerateParams Inr
      (Some \<lparr>List = Some \<lparr>Elements =
                 [[(''cluster'', JString ''dev''), (''values'', JObject [(''project'', JString ''p'')])],
                  [(''cluster'', JString ''prod'')]],
               Template = ()\<rparr>,
             Merge = (None :: (unit, unit) MergeGenerator option)\<rparr>) = Inr res \<and>
     length res = 2 \<and>
     element_params Inr
       [(''cluster'', JString ''dev''), (''values'', JObject [(''project'', JString ''p'')])]
       = Inr (res ! 0) \<and>
     element_params Inr [(''cluster'', JString ''prod'')] = Inr (res ! 1)"
  using GenerateParams_length_order
    [where g = "\<lparr>List = Some \<lparr>Elements =
                 [[(''cluster'', JString ''dev''), (''values'', JObject [(''project'', JString ''p'')])],
                  [(''cluster'', JString ''prod'')]],
               Template = ()\<rparr>,
             Merge = (None :: (unit, unit) MergeGenerator option)\<rparr>"
      and l = "\<lparr>Elements =
                 [[(''cluster'', JString ''dev''), (''values'', JObject [(''project'', JString ''p'')])],
                  [(''cluster'', JString ''prod'')]],
               Template = ()\<rparr>"
      and unmarshal = Inr]
  by (simp add: element_ok_def) force

text \<open>
  Claim C7. For an element that decodes to the object \<open>element\<close>, in whatever order
  its fields are visited: if every field other than \<open>values\<close> is a string and
  \<open>values\<close> is an object of strings, the ParamSet has exactly the names of the string
  fields and the names \<open>values.k\<close> for the keys \<open>k\<close> of the \<open>values\<close> object, and
  each of its entries carries the value of such a field or sub-key. Otherwise the
  element fails with one of the two value-parsing errors, \<open>GenerateParams\<close> returns an
  error and no list for every spec containing the element, and that error is a
  value-parsing error when all elements before it decode.
\<close>

theorem List_flattening_rule:
  assumes "(unmarshal :: 'raw unmarshal) x = Inr element"
  shows "(element_ok element \<longrightarrow>
           (\<exists>params. element_params unmarshal x = Inr params \<and>
              (\<forall>n. (n \<in> dom params) =
                 (n \<noteq> ''values'' \<and> (\<exists>s. (n, JString s) \<in> set element) \<or>
                  (\<exists>vals k s. (''values'', JObject vals) \<in> set element \<and>
                     (k, JString s) \<in> set vals \<and> n = ''values.'' @ k))) \<and>
              (\<forall>n v. params n = Some v \<longrightarrow>
                 n \<noteq> ''values'' \<and> (n, JString v) \<in> set element \<or>
                 (\<exists>vals k. (''values'', JObject vals) \<in> set element \<and>
                    (k, JString v) \<in> set vals \<and> n = ''values.'' @ k)))) \<and>
         (\<not> element_ok element \<longrightarrow>
           (\<exists>e. element_params unmarshal x = Inl e \<and> is_value_parsing_error e) \<and>
           (\<forall>(g :: ('raw, 'g, 't) ApplicationSetGenerator) l. List g = Some l \<and> x \<in> set (Elements l) \<longrightarrow>
              (\<exists>e. GenerateParams unmarshal (Some g) = Inl e)) \<and>
           (\<forall>(g :: ('raw, 'g, 't) ApplicationSetGenerator) l pre post. List g = Some l \<and> Elements l = pre @ x # post \<and>
              (\<forall>y\<in>set pre. \<exists>el. unmarshal y = Inr el) \<longrightarrow>
              (\<exists>e. GenerateParams unmarshal (Some g) = Inl e \<and> is_value_parsing_error e)))"
proof (intro conjI impI)
  assume ok: "element_ok element"
  let ?params = "Map.empty ++ map_of (rev (flatten_spec element))"
  have run: "element_params unmarshal x = Inr ?params"
    by (simp add: element_params_def assms element_loop_ok [OF ok])
  have dom: "(n \<in> dom ?params) =
      (n \<noteq> ''values'' \<and> (\<exists>s. (n, JString s) \<in> set element) \<or>
       (\<exists>vals k s. (''values'', JObject vals) \<in> set element \<and>
          (k, JString s) \<in> set vals \<and> n = ''values.'' @ k))" for n
  proof -
    have "(n \<in> dom ?params) = (\<exists>v. (n, v) \<in> set (flatten_spec element))"
      by (simp add: map_of_rev_dom image_iff) force
    also have "\<dots> = (n \<noteq> ''values'' \<and> (\<exists>s. (n, JString s) \<in> set element) \<or>
       (\<exists>vals k s. (''values'', JObject vals) \<in> set element \<and>
          (k, JString s) \<in> set vals \<and> n = ''values.'' @ k))"
      by (simp only: set_flatten_spec) blast
    finally show ?thesis .
  qed
  have entry: "n \<noteq> ''values'' \<and> (n, JString v) \<in> set element \<or>
       (\<exists>vals k. (''values'', JObject vals) \<in> set element \<and>
          (k, JString v) \<in> set vals \<and> n = ''values.'' @ k)" if "?params n = Some v" for n v
  proof -
    from that have "map_of (rev (flatten_spec element)) n = Some v" by simp
    then have "(n, v) \<in> set (flatten_spec element)" by (rule map_of_rev_entry)
    then show ?thesis by (simp only: set_flatten_spec)
  qed
  from run dom entry
  show "\<exists>params. element_params unmarshal x = Inr params \<and>
              (\<forall>n. (n \<in> dom params) =
                 (n \<noteq> ''values'' \<and> (\<exists>s. (n, JString s) \<in> set element) \<or>
                  (\<exists>vals k s. (''values'', JObject vals) \<in> set element \<and>
                     (k, JString s) \<in> set vals \<and> n = ''values.'' @ k))) \<and>
              (\<forall>n v. params n = Some v \<longrightarrow>
                 n \<noteq> ''values'' \<and> (n, JString v) \<in> set element \<or>
                 (\<exists>vals k. (''values'', JObject vals) \<in> set element \<and>
                    (k, JString v) \<in> set vals \<and> n = ''values.'' @ k))"
    by blast
next
  assume bad: "\<not> element_ok element"
  from element_loop_bad [OF bad, of Map.empty]
  obtain e where e: "element_params unmarshal x = Inl e" and vpe: "is_value_parsing_error e"
    by (auto simp: element_params_def assms)
  then show "\<exists>e. element_params unmarshal x = Inl e \<and> is_value_parsing_error e" by blast
  show "\<forall>(g :: ('raw, 'g, 't) ApplicationSetGenerator) l. List g = Some l \<and> x \<in> set (Elements l) \<longrightarrow>
           (\<exists>e. GenerateParams unmarshal (Some g) = Inl e)"
  proof (intro allI impI)
    fix g :: "('raw, 'g, 't) ApplicationSetGenerator" and l
    assume "List g = Some l \<and> x \<in> set (Elements l)"
    then show "\<exists>e. GenerateParams unmarshal (Some g) = Inl e"
      using elements_loop_no_partial [OF _ e] by (simp add: GenerateParams_def)
  qed
  show "\<forall>(g :: ('raw, 'g, 't) ApplicationSetGenerator) l pre post. List g = Some l \<and> Elements l = pre @ x # post \<and>
           (\<forall>y\<in>set pre. \<exists>el. unmarshal y = Inr el) \<longrightarrow>
           (\<exists>e. GenerateParams unmarshal (Some g) = Inl e \<and> is_value_parsing_error e)"
  proof (intro allI impI)
    fix g :: "('raw, 'g, 't) ApplicationSetGenerator" and l pre post
    assume a: "List g = Some l \<and> Elements l = pre @ x # post \<and>
           (\<forall>y\<in>set pre. \<exists>el. unmarshal y = Inr el)"
    then have "\<forall>y\<in>set pre. \<exists>el. unmarshal y = Inr el" by simp
    from elements_loop_value_error [OF this e vpe] a
    show "\<exists>e. GenerateParams unmarshal (Some g) = Inl e \<and> is_value_parsing_error e"
      by (simp add: GenerateParams_def)
  qed
qed

text \<open>An element with a \<open>values\<close> object, and a spec whose second element has a
  string under \<open>values\<close>.\<close>

theorem List_flattening_rule_witness:
  "(\<exists>params. element_params Inr
       [(''cluster'', JString ''dev''), (''values'', JObject [(''project'', JString ''p'')])]
       = Inr params \<and> params ''values.project'' = Some ''p'' \<and> params ''cluster'' = Some ''dev'') \<and>
   (\<exists>e. GenerateParams Inr
      (Some \<lparr>List = Some \<lparr>Elements =
                 [[(''cluster'', JString ''dev'')], [(''values'', JString ''v'')]],
               Template = ()\<rparr>,
             Merge = (None :: (unit, unit) MergeGenerator option)\<rparr>) = Inl e \<and>
        is_value_parsing_error e)"
proof -
  let ?ok = "[(''cluster'', JString ''dev''), (''values'', JObject [(''project'', JString ''p'')])]"
  let ?bad = "[(''values'', JString ''v'')] :: object"
  let ?l = "\<lparr>Elements = [[(''cluster'', JString ''dev'')], ?bad], Template = ()\<rparr>"
  let ?g = "\<lparr>List = Some ?l, Merge = (None :: (unit, unit) MergeGenerator option)\<rparr>"
  have ok: "element_ok ?ok" by (simp add: element_ok_def)
  have bad: "\<not> element_ok ?bad" by (simp add: element_ok_def)
  from List_flattening_rule [of Inr ?ok ?ok] ok
  obtain params where run: "element_params Inr ?ok = Inr params"
    and dom: "\<And>n. (n \<in> dom params) =
                 (n \<noteq> ''values'' \<and> (\<exists>s. (n, JString s) \<in> set ?ok) \<or>
                  (\<exists>vals k s. (''values'', JObject vals) \<in> set ?ok \<and>
                     (k, JString s) \<in> set vals \<and> n = ''values.'' @ k))"
    and entry: "\<And>n v. params n = Some v \<Longrightarrow>
                 n \<noteq> ''values'' \<and> (n, JString v) \<in> set ?ok \<or>
                 (\<exists>vals k. (''values'', JObject vals) \<in> set ?ok \<and>
                    (k, JString v) \<in> set vals \<and> n = ''values.'' @ k)"
    by auto
  have "''values.project'' \<in> dom params" by (simp add: dom)
  then obtain v where v: "params ''values.project'' = Some v" by blast
  from entry [OF v] have "v = ''p''" by auto
  have "''cluster'' \<in> dom params" by (simp add: dom)
  then obtain w where w: "params ''cluster'' = Some w" by blast
  from entry [OF w] have "w = ''dev''" by auto
  have "(\<exists>e. element_params Inr ?bad = Inl e \<and> is_value_parsing_error e) \<and>
        (\<forall>(g :: (object, unit, unit) ApplicationSetGenerator) l.
           List g = Some l \<and> ?bad \<in> set (Elements l) \<longrightarrow>
           (\<exists>e. GenerateParams Inr (Some g) = Inl e)) \<and>
        (\<forall>(g :: (object, unit, unit) ApplicationSetGenerator) l pre post.
          List g = Some l \<and> Elements l = pre @ ?bad # post \<and>
          (\<forall>y\<in>set pre. \<exists>el. Inr y = (Inr el :: string + object)) \<longrightarrow>
          (\<exists>e. GenerateParams Inr (Some g) = Inl e \<and> is_value_parsing_error e))"
    using bad by (rule mp [OF conjunct2 [OF List_flattening_rule [of Inr ?bad ?bad, OF refl]]])
  then have "\<forall>(g :: (object, unit, unit) ApplicationSetGenerator) l pre post.
          List g = Some l \<and> Elements l = pre @ ?bad # post \<and>
          (\<forall>y\<in>set pre. \<exists>el. Inr y = (Inr el :: string + object)) \<longrightarrow>
          (\<exists>e. GenerateParams Inr (Some g) = Inl e \<and> is_value_parsing_error e)"
    by (rule conjunct2 [OF conjunct2])
  then have "List ?g = Some ?l \<and> Elements ?l = [[(''cluster'', JString ''dev'')]] @ ?bad # [] \<and>
          (\<forall>y\<in>set [[(''cluster'', JString ''dev'')]]. \<exists>el. Inr y = (Inr el :: string + object)) \<longrightarrow>
          (\<exists>e. GenerateParams Inr (Some ?g) = Inl e \<and> is_value_parsing_error e)"
    by blast
  then have "\<exists>e. GenerateParams Inr (Some ?g) = Inl e \<and> is_value_parsing_error e" by simp
  with run v \<open>v = ''p''\<close> w \<open>w = ''dev''\<close> show ?thesis by simp
qed

text \<open>
  Claim C8, as stated, fails: with a top-level field \<open>values.k\<close> and a key \<open>k\<close> in the
  \<open>values\<close> object, both are written under the name \<open>values.k\<close> and the one visited
  last stays. In either order of the two fields one of the two values is lost.
\<close>

theorem List_flattening_collision:
  "wf_object [(''values.k'', JString ''x''), (''values'', JObject [(''k'', JString ''y'')])] \<and>
   element_ok [(''values.k'', JString ''x''), (''values'', JObject [(''k'', JString ''y'')])] \<and>
   element_params Inr [(''values.k'', JString ''x''), (''values'', JObject [(''k'', JString ''y'')])]
     = Inr [''values.k'' \<mapsto> ''y''] \<and>
   [''values.k'' \<mapsto> ''y''] ''values.k'' \<noteq> Some ''x'' \<and>
   element_params Inr [(''values'', JObject [(''k'', JString ''y'')]), (''values.k'', JString ''x'')]
     = Inr [''values.k'' \<mapsto> ''x''] \<and>
   [''values.k'' \<mapsto> ''x''] ''values.k'' \<noteq> Some ''y''"
  by (simp add: wf_object_def element_ok_def element_params_def)

text \<open>
  Claim C8, amended. For an element with pairwise distinct field names whose fields
  are strings and an optional \<open>values\<close> object of strings with distinct keys, and in
  which a top-level field named \<open>values.k\<close> beside a key \<open>k\<close> of the \<open>values\<close>
  object, if there is one, carries the same value as that key: every string field is
  in the ParamSet under its own name with its value, and every sub-key \<open>k\<close> of
  \<open>values\<close> is in it under \<open>values.k\<close> with its value.
\<close>

theorem List_flattening_keeps_fields:
  assumes "unmarshal x = Inr element"
    and "wf_object element" and "element_ok element"
    and "\<forall>vals k s s'. (''values'', JObject vals) \<in> set element \<and> (k, JString s) \<in> set vals \<and>
           (''values.'' @ k, JString s') \<in> set element \<longrightarrow> s' = s"
  shows "\<exists>params. element_params unmarshal x = Inr params \<and>
           (\<forall>key s. (key, JString s) \<in> set element \<and> key \<noteq> ''values'' \<longrightarrow> params key = Some s) \<and>
           (\<forall>vals k s. (''values'', JObject vals) \<in> set element \<and> (k, JString s) \<in> set vals \<longrightarrow>
              params (''values.'' @ k) = Some s)"
proof -
  let ?params = "Map.empty ++ map_of (rev (flatten_spec element))"
  have run: "element_params unmarshal x = Inr ?params"
    by (simp add: element_params_def assms(1) element_loop_ok [OF assms(3)])
  from assms(2) have dk: "distinct (map fst element)" and wf: "list_all wf_field element"
    by (simp_all add: wf_object_def)
  have unique: "v' = v"
    if "(n, v) \<in> set (flatten_spec element)" and "(n, v') \<in> set (flatten_spec element)" for n v v'
  proof -
    from that(1) consider
      (top) "n \<noteq> ''values''" "(n, JString v) \<in> set element"
      | (sub) vals k where "(''values'', JObject vals) \<in> set element"
          "(k, JString v) \<in> set vals" "n = ''values.'' @ k"
      by (auto simp only: set_flatten_spec)
    then show ?thesis
    proof cases
      case top
      from that(2) consider
        (top') "(n, JString v') \<in> set element"
        | (sub') vals k where "(''values'', JObject vals) \<in> set element"
            "(k, JString v') \<in> set vals" "n = ''values.'' @ k"
        by (auto simp only: set_flatten_spec)
      then show ?thesis
      proof cases
        case top'
        from distinct_fst_unique [OF dk top(2) top'] show ?thesis by simp
      next
        case sub'
        with top(2) assms(4) have "v = v'" by blast
        then show ?thesis by simp
      qed
    next
      case sub
      from wf sub(1) have dv: "distinct (map fst vals)"
        by (auto simp: list_all_iff)
      from that(2) consider
        (top') "(n, JString v') \<in> set element"
        | (sub') vals' k' where "(''values'', JObject vals') \<in> set element"
            "(k', JString v') \<in> set vals'" "n = ''values.'' @ k'"
        by (auto simp only: set_flatten_spec)
      then show ?thesis
      proof cases
        case top'
        with sub assms(4) show ?thesis by blast
      next
        case sub'
        from distinct_fst_unique [OF dk sub(1) sub'(1)] have "vals' = vals" by simp
        moreover from sub(3) sub'(3) have "k' = k" by simp
        ultimately have "(k, JString v') \<in> set vals" using sub'(2) by simp
        from distinct_fst_unique [OF dv sub(2) this] show ?thesis by simp
      qed
    qed
  qed
  have present: "?params n = Some v" if "(n, v) \<in> set (flatten_spec element)" for n v
  proof -
    have "map_of (rev (flatten_spec element)) n = Some v"
      using that unique [OF that] by (rule map_of_rev_consistent)
    then show ?thesis by simp
  qed
  have "?params key = Some s" if "(key, JString s) \<in> set element \<and> key \<noteq> ''values''" for key s
    using that by (intro present) (simp only: set_flatten_spec, blast)
  moreover have "?params (''values.'' @ k) = Some s"
    if "(''values'', JObject vals) \<in> set element \<and> (k, JString s) \<in> set vals" for vals k s
    using that by (intro present) (simp only: set_flatten_spec, blast)
  ultimately show ?thesis using run by blast
qed

text \<open>An element with a \<open>values\<close> object and no coinciding names.\<close>

theorem List_flattening_keeps_fields_witness:
  "\<exists>params. element_params Inr
       [(''cluster'', JString ''dev''), (''values'', JObject [(''project'', JString ''p'')])]
       = Inr params \<and> params ''values.project'' = Some ''p'' \<and> params ''cluster'' = Some ''dev''"
proof -
  let ?ok = "[(''cluster'', JString ''dev''), (''values'', JObject [(''project'', JString ''p'')])]"
  have "Inr ?ok = (Inr ?ok :: string + object)" by simp
  moreover have "wf_object ?ok" by (simp add: wf_object_def)
  moreover have "element_ok ?ok" by (simp add: element_ok_def)
  moreover have "\<forall>vals k s s'. (''values'', JObject vals) \<in> set ?ok \<and> (k, JString s) \<in> set vals \<and>
           (''values.'' @ k, JString s') \<in> set ?ok \<longrightarrow> s' = s"
    by auto
  ultimately obtain params where run: "element_params Inr ?ok = Inr params"
    and top: "\<And>key s. (key, JString s) \<in> set ?ok \<and> key \<noteq> ''values'' \<Longrightarrow> params key = Some s"
    and sub: "\<And>vals k s. (''values'', JObject vals) \<in> set ?ok \<and> (k, JString s) \<in> set vals \<Longrightarrow>
              params (''values.'' @ k) = Some s"
    using List_flattening_keeps_fields [of Inr ?ok ?ok] by blast
  have "params ''cluster'' = Some ''dev''" by (rule top) simp
  moreover have "params (''values.'' @ ''project'') = Some ''p''"
    by (rule sub [of "[(''project'', JString ''p'')]"]) simp
  ultimately show ?thesis using run by simp
qed

text \<open>
  Claim C9. For a nil generator and for a generator whose List variant is nil,
  \<open>GenerateParams\<close> returns \<open>EmptyAppSetGeneratorError\<close>. This holds for every decoder
  \<open>unmarshal\<close>, which is therefore not consulted, and no ParamSet list is returned.
\<close>

theorem GenerateParams_empty_spec:
  "GenerateParams unmarshal None = Inl EmptyAppSetGeneratorError \<and>
   GenerateParams unmarshal (Some (g\<lparr>List := None\<rparr>)) = Inl EmptyAppSetGeneratorError"
  by (simp add: GenerateParams_def)

text \<open>
  Claim C10. \<open>GetTemplate\<close> has no result (the Go code panics on the nil pointer)
  exactly when the List variant of the generator is nil, a nil generator having no
  List variant either; otherwise it returns the template of the List variant. Where
  \<open>GetTemplate\<close> has no result for a generator, \<open>GenerateParams\<close> returns
  \<open>EmptyAppSetGeneratorError\<close>.
\<close>

theorem GetTemplate_partial:
  "GetTemplate None = None \<and>
   ((GetTemplate (Some g) = None) = (List g = None)) \<and>
   (\<forall>l. List g = Some l \<longrightarrow> GetTemplate (Some g) = Some (Template l)) \<and>
   (List g = None \<longrightarrow> GenerateParams unmarshal (Some g) = Inl EmptyAppSetGeneratorError)"
  by (simp add: GetTemplate_def GenerateParams_def split: option.splits)

text \<open>A generator without List variant, and one with an empty List and template \<open>t\<close>.\<close>

theorem GetTemplate_partial_witness:
  "GetTemplate (Some \<lparr>List = (None :: (object, unit) ListGenerator option),
                      Merge = (None :: (unit, unit) MergeGenerator option)\<rparr>) = None \<and>
   GenerateParams Inr (Some \<lparr>List = (None :: (object, unit) ListGenerator option),
                      Merge = (None :: (unit, unit) MergeGenerator option)\<rparr>)
     = Inl EmptyAppSetGeneratorError \<and>
   GetTemplate (Some \<lparr>List = Some \<lparr>Elements = ([] :: object list), Template = ''t''\<rparr>,
                      Merge = (None :: (unit, string) MergeGenerator option)\<rparr>) = Some ''t''"
proof -
  let ?n = "\<lparr>List = (None :: (object, unit) ListGenerator option),
             Merge = (None :: (unit, unit) MergeGenerator option)\<rparr>"
  let ?g = "\<lparr>List = Some \<lparr>Elements = ([] :: object list), Template = ''t''\<rparr>,
             Merge = (None :: (unit, string) MergeGenerator option)\<rparr>"
  have n: "List ?n = None" by simp
  from GetTemplate_partial [of ?n Inr] n
  have "GetTemplate (Some ?n) = None"
    and "GenerateParams Inr (Some ?n) = Inl EmptyAppSetGeneratorError"
    by blast+
  moreover have "\<forall>l. List ?g = Some l \<longrightarrow> GetTemplate (Some ?g) = Some (Template l)"
    using GetTemplate_partial [of ?g] by (rule conjunct1 [OF conjunct2 [OF conjunct2]])
  then have "GetTemplate (Some ?g) = Some ''t''" by simp
  ultimately show ?thesis by blast
qed

end
